theory Spec2Isabelle
  imports Complex_Main
begin

section \<open>Data model\<close>

text \<open>
  A muon as \<^verbatim>\<open>RunSamples\<close> zips it from the branches of the input file: the four
  kinematic fields of the \<^verbatim>\<open>Momentum4D\<close> record and the electric charge. The
  isolation and impact-parameter fields are never read by the code modelled here.
  An event is the list of its muons; a muon is identified by its position. The charge
  is an integer; the finder only adds two charges and compares the sum with zero.
\<close>

record lepton =
  pt :: real
  eta :: real
  phi :: real
  mass :: real
  charge :: int

type_synonym event = "lepton list"

text \<open>A candidate is the 4-tuple of indices that \<^verbatim>\<open>find_4lep\<close> writes to the builder.\<close>

type_synonym candidate = "nat \<times> nat \<times> nat \<times> nat"

datatype error = IndexError

section \<open>The array builder\<close>

text \<open>
  \<^verbatim>\<open>find_4lep\<close> mutates an \<^verbatim>\<open>ak.ArrayBuilder\<close>. The model passes the builder
  as explicit state. A \<open>builder\<close> is a builder in which no list is open: it holds the
  lists already closed by \<^verbatim>\<open>end_list\<close>. This is the state in which \<^verbatim>\<open>find_4lep\<close>
  receives and returns it. \<^verbatim>\<open>begin_list\<close> opens a list and gives an \<open>open_builder\<close>,
  which holds the closed lists and the tuples of the open one; \<^verbatim>\<open>end_list\<close> closes
  it. A \<^verbatim>\<open>begin_list\<close> inside an open list would start a nested list: the finder
  never does that, and the types leave it out. The five calls \<^verbatim>\<open>begin_tuple(4)\<close>,
  \<^verbatim>\<open>index(k).integer(ik)\<close> for k = 0..3 and \<^verbatim>\<open>end_tuple()\<close> always occur together and
  are one operation \<open>tuple4\<close>.
\<close>

record builder =
  finished :: "candidate list list"

record open_builder =
  closed :: "candidate list list"
  current :: "candidate list"

definition ArrayBuilder :: builder where
  "ArrayBuilder = \<lparr>finished = []\<rparr>"

definition begin_list :: "builder \<Rightarrow> open_builder" where
  "begin_list b = \<lparr>closed = finished b, current = []\<rparr>"

definition tuple4 :: "nat \<Rightarrow> nat \<Rightarrow> nat \<Rightarrow> nat \<Rightarrow> open_builder \<Rightarrow> open_builder" where
  "tuple4 i0 i1 i2 i3 b = b\<lparr>current := current b @ [(i0, i1, i2, i3)]\<rparr>"

definition end_list :: "open_builder \<Rightarrow> builder" where
  "end_list b = \<lparr>finished = closed b @ [current b]\<rparr>"

definition snapshot :: "builder \<Rightarrow> candidate list list" where
  "snapshot b = finished b"

section \<open>Loops and indexing\<close>

text \<open>
  Reading a list at an index fails out of range. A \<^verbatim>\<open>for\<close> loop threads the state
  through its body and stops at the first error; \<^verbatim>\<open>continue\<close> is a body that returns
  the state unchanged. \<^verbatim>\<open>range(a, b)\<close> is empty when \<open>b \<le> a\<close>.
\<close>

definition getitem :: "'a list \<Rightarrow> nat \<Rightarrow> error + 'a" where
  "getitem xs i = (if i < length xs then Inr (xs ! i) else Inl IndexError)"

definition py_range :: "nat \<Rightarrow> nat \<Rightarrow> nat list" where
  "py_range a b = [a..<b]"

fun for_each :: "'a list \<Rightarrow> ('a \<Rightarrow> 's \<Rightarrow> error + 's) \<Rightarrow> 's \<Rightarrow> error + 's" where
  "for_each [] body s = Inr s"
| "for_each (x # xs) body s =
     (case body x s of Inl e \<Rightarrow> Inl e | Inr s' \<Rightarrow> for_each xs body s')"

section \<open>The candidate finder \<^verbatim>\<open>find_4lep\<close>\<close>

text \<open>The body of the innermost loop (over \<open>i3\<close>): two guards, then the tuple.\<close>

definition body_i3 ::
  "int list \<Rightarrow> nat \<Rightarrow> nat \<Rightarrow> nat \<Rightarrow> nat \<Rightarrow> open_builder \<Rightarrow> error + open_builder" where
  "body_i3 lep_charge i0 i1 i2 i3 b =
     (if card {i0, i1, i2, i3} < 4 then Inr b
      else case getitem lep_charge i2 of Inl e \<Rightarrow> Inl e | Inr c2 \<Rightarrow>
           (case getitem lep_charge i3 of Inl e \<Rightarrow> Inl e | Inr c3 \<Rightarrow>
            if c2 + c3 \<noteq> 0 then Inr b
            else Inr (tuple4 i0 i1 i2 i3 b)))"

text \<open>The body of the loop over \<open>i1\<close>: the charge guard of the first pair, then the
  loops over \<open>i2\<close> and \<open>i3\<close>.\<close>

definition body_i1 ::
  "int list \<Rightarrow> nat \<Rightarrow> nat \<Rightarrow> nat \<Rightarrow> open_builder \<Rightarrow> error + open_builder" where
  "body_i1 lep_charge nlep i0 i1 b =
     (case getitem lep_charge i0 of Inl e \<Rightarrow> Inl e | Inr c0 \<Rightarrow>
      (case getitem lep_charge i1 of Inl e \<Rightarrow> Inl e | Inr c1 \<Rightarrow>
       if c0 + c1 \<noteq> 0 then Inr b
       else for_each (py_range 0 nlep)
              (\<lambda>i2. for_each (py_range (i2 + 1) nlep) (body_i3 lep_charge i0 i1 i2)) b))"

text \<open>One turn of the loop over the events: open a list, run the four nested loops,
  close the list.\<close>

definition event_body :: "event \<Rightarrow> int list \<Rightarrow> builder \<Rightarrow> error + builder" where
  "event_body leptons lep_charge b =
     (let nlep = length leptons in
      case for_each (py_range 0 nlep)
             (\<lambda>i0. for_each (py_range (i0 + 1) nlep) (body_i1 lep_charge nlep i0))
             (begin_list b)
      of Inl e \<Rightarrow> Inl e | Inr b' \<Rightarrow> Inr (end_list b'))"

definition find_4lep :: "event list \<Rightarrow> builder \<Rightarrow> error + builder" where
  "find_4lep events_leptons b =
     for_each (zip events_leptons (map (map charge) events_leptons))
       (\<lambda>(leptons, lep_charge). event_body leptons lep_charge) b"

text \<open>Line 455 of the notebook: the finder on a fresh builder, then \<^verbatim>\<open>snapshot()\<close>.\<close>

definition fourmuon_idx :: "event list \<Rightarrow> error + candidate list list" where
  "fourmuon_idx muons =
     (case find_4lep muons ArrayBuilder of Inl e \<Rightarrow> Inl e | Inr b \<Rightarrow> Inr (snapshot b))"

section \<open>The Z-pair selection of \<^verbatim>\<open>RunSamples\<close>\<close>

text \<open>
  Line 449: the mask that keeps the events with exactly four muons, two of charge
  \<open>+1\<close> and two of charge \<open>-1\<close>.
\<close>

definition muon_counts :: "event \<Rightarrow> bool" where
  "muon_counts muons =
     (length muons = 4
      \<and> length (filter (\<lambda>m. charge m = 1) muons) = 2
      \<and> length (filter (\<lambda>m. charge m = - 1) muons) = 2)"

text \<open>
  Lines 456 to 468: each candidate becomes a record of two pairs of muons, the first pair
  under \<^verbatim>\<open>z1\<close> and the second under \<^verbatim>\<open>z2\<close>. The field \<^verbatim>\<open>p4\<close> is the sum of the two
  muons and only its mass is read: the \<^verbatim>\<open>vector\<close> library computes it in single
  precision, and the model takes it as a parameter \<open>pmass\<close>, the mass that the library
  returns for two muons, a float32 read as a real number (a mass that is infinite or
  not a number is outside the model).
\<close>

record zpair =
  lep1 :: lepton
  lep2 :: lepton

record fourmu =
  z1 :: zpair
  z2 :: zpair

fun mapM :: "('a \<Rightarrow> error + 'b) \<Rightarrow> 'a list \<Rightarrow> error + 'b list" where
  "mapM f [] = Inr []"
| "mapM f (x # xs) =
     (case f x of Inl e \<Rightarrow> Inl e | Inr y \<Rightarrow>
      (case mapM f xs of Inl e \<Rightarrow> Inl e | Inr ys \<Rightarrow> Inr (y # ys)))"

definition zip_fourmuon :: "event \<Rightarrow> candidate \<Rightarrow> error + fourmu" where
  "zip_fourmuon muons c =
     (case c of (i0, i1, i2, i3) \<Rightarrow>
      (case getitem muons i0 of Inl e \<Rightarrow> Inl e | Inr m0 \<Rightarrow>
       (case getitem muons i1 of Inl e \<Rightarrow> Inl e | Inr m1 \<Rightarrow>
        (case getitem muons i2 of Inl e \<Rightarrow> Inl e | Inr m2 \<Rightarrow>
         (case getitem muons i3 of Inl e \<Rightarrow> Inl e | Inr m3 \<Rightarrow>
          Inr \<lparr>z1 = \<lparr>lep1 = m0, lep2 = m1\<rparr>, z2 = \<lparr>lep1 = m2, lep2 = m3\<rparr>\<rparr>)))))"

text \<open>
  Line 470. \<^verbatim>\<open>ak.argmin(..., axis=1)\<close> gives, for each event, the position of the
  first smallest value, and \<^verbatim>\<open>None\<close> for an event with no candidate;
  \<^verbatim>\<open>ak.singletons\<close> turns a position into a list of one element and \<^verbatim>\<open>None\<close> into
  the empty list.
\<close>

fun argmin :: "real list \<Rightarrow> nat option" where
  "argmin [] = None"
| "argmin (x # xs) =
     (case argmin xs of None \<Rightarrow> Some 0
      | Some k \<Rightarrow> if xs ! k < x then Some (Suc k) else Some 0)"

definition singletons :: "'a option \<Rightarrow> 'a list" where
  "singletons v = (case v of None \<Rightarrow> [] | Some x \<Rightarrow> [x])"

text \<open>
  The key of line 470 is computed in single precision. The masses are float32 and
  \<^verbatim>\<open>91.1876\<close> is a Python float, so NumPy rounds the constant to float32, subtracts
  in float32 and rounds the difference to the nearest float32, ties to even; the
  absolute value is exact. \<open>fl32\<close> rounds a real number that way: \<open>ulp_exp32 x\<close> is the
  exponent of the spacing of the float32 numbers around \<open>x\<close>, the least \<open>e\<close> from \<open>-149\<close>
  to \<open>104\<close> with \<open>\<bar>x\<bar> < 2 ^ (e + 24)\<close> (24 bits of significand, subnormal numbers at
  \<open>-149\<close>), found by doubling or halving the bound from 2. A result beyond the largest
  float32 is not turned into infinity: the difference of a float32 and the constant
  never is.
\<close>

fun ulp_up :: "nat \<Rightarrow> int \<Rightarrow> real \<Rightarrow> real \<Rightarrow> int" where
  "ulp_up 0 e t x = e"
| "ulp_up (Suc n) e t x = (if \<bar>x\<bar> < t then e else ulp_up n (e + 1) (2 * t) x)"

fun ulp_down :: "nat \<Rightarrow> int \<Rightarrow> real \<Rightarrow> real \<Rightarrow> int" where
  "ulp_down 0 e t x = e"
| "ulp_down (Suc n) e t x = (if t / 2 \<le> \<bar>x\<bar> then e else ulp_down n (e - 1) (t / 2) x)"

definition ulp_exp32 :: "real \<Rightarrow> int" where
  "ulp_exp32 x =
     (if 1 \<le> \<bar>x\<bar> then ulp_up 127 (- 23) 2 x else ulp_down 126 (- 23) 2 x)"

definition round_even :: "real \<Rightarrow> int" where
  "round_even q =
     (let f = \<lfloor>q\<rfloor>; r = q - of_int f in
      if r < 1 / 2 then f
      else if 1 / 2 < r then f + 1
      else if even f then f else f + 1)"

definition fl32 :: "real \<Rightarrow> real" where
  "fl32 x = (let u = 2 powi ulp_exp32 x in of_int (round_even (x / u)) * u)"

definition nominal32 :: real where
  "nominal32 = fl32 91.1876"

definition z1_dist :: "(lepton \<Rightarrow> lepton \<Rightarrow> real) \<Rightarrow> fourmu \<Rightarrow> real" where
  "z1_dist pmass f = \<bar>fl32 (pmass (lep1 (z1 f)) (lep2 (z1 f)) - nominal32)\<bar>"

definition bestz1 :: "(lepton \<Rightarrow> lepton \<Rightarrow> real) \<Rightarrow> fourmu list list \<Rightarrow> nat list list" where
  "bestz1 pmass fourmuon = map (\<lambda>fs. singletons (argmin (map (z1_dist pmass) fs))) fourmuon"

text \<open>Line 471: \<^verbatim>\<open>ak.flatten(fourmuon[bestz1])\<close>, the chosen records of all events in
  one list.\<close>

definition select_best :: "(lepton \<Rightarrow> lepton \<Rightarrow> real) \<Rightarrow> fourmu list list \<Rightarrow> error + fourmu list" where
  "select_best pmass fourmuon =
     (case mapM (\<lambda>(fs, ks). mapM (getitem fs) ks) (zip fourmuon (bestz1 pmass fourmuon))
      of Inl e \<Rightarrow> Inl e | Inr chosen \<Rightarrow> Inr (concat chosen))"

text \<open>
  Lines 456 to 468 on the whole batch. The tuples of the snapshot are read by their
  fields \<^verbatim>\<open>"0"\<close> to \<^verbatim>\<open>"3"\<close>. When no event of the batch has a candidate, the
  builder has seen no tuple, the snapshot has no such fields (its items are of unknown
  type) and the lookup on line 456 raises \<^verbatim>\<open>IndexError\<close>.
\<close>

definition fourmuon_records :: "event list \<Rightarrow> candidate list list \<Rightarrow> error + fourmu list list" where
  "fourmuon_records muons idx =
     (if concat idx = [] then Inl IndexError
      else mapM (\<lambda>(ev, cs). mapM (zip_fourmuon ev) cs) (zip muons idx))"

text \<open>Lines 455 to 471 on the events that passed the mask.\<close>

definition best_fourmuon :: "(lepton \<Rightarrow> lepton \<Rightarrow> real) \<Rightarrow> event list \<Rightarrow> error + fourmu list" where
  "best_fourmuon pmass muons =
     (case fourmuon_idx muons of Inl e \<Rightarrow> Inl e | Inr idx \<Rightarrow>
      (case fourmuon_records muons idx
       of Inl e \<Rightarrow> Inl e | Inr fourmuon \<Rightarrow> select_best pmass fourmuon))"

text \<open>Lines 449 to 471 for one batch of events: the mask, the early \<^verbatim>\<open>continue\<close> when no
  event is left, then the reconstruction.\<close>

definition RunSamples_batch :: "(lepton \<Rightarrow> lepton \<Rightarrow> real) \<Rightarrow> event list \<Rightarrow> error + fourmu list" where
  "RunSamples_batch pmass muons =
     (let muons' = filter muon_counts muons in
      if length muons' = 0 then Inr [] else best_fourmuon pmass muons')"

section \<open>Notions the properties are stated with\<close>




text \<open>The lexicographic order on index tuples.\<close>

fun lex_less :: "candidate \<Rightarrow> candidate \<Rightarrow> bool" where
  "lex_less (a0, a1, a2, a3) (b0, b1, b2, b3) =
     (a0 < b0 \<or> (a0 = b0 \<and> (a1 < b1 \<or> (a1 = b1 \<and> (a2 < b2 \<or> (a2 = b2 \<and> a3 < b3))))))"

text \<open>Two tuples split the same four indices the same way into two pairs, whatever
  the order of the pairs and the order inside a pair.\<close>

fun same_split :: "candidate \<Rightarrow> candidate \<Rightarrow> bool" where
  "same_split (a0, a1, a2, a3) (b0, b1, b2, b3) =
     ({{a0, a1}, {a2, a3}} = {{b0, b1}, {b2, b3}})"

fun swap_pairs :: "candidate \<Rightarrow> candidate" where
  "swap_pairs (i0, i1, i2, i3) = (i2, i3, i0, i1)"

text \<open>Muons for the examples: a transverse momentum and a charge.\<close>

definition mu :: "real \<Rightarrow> int \<Rightarrow> lepton" where
  "mu p q = \<lparr>pt = p, eta = 0, phi = 0, mass = 0, charge = q\<rparr>"

definition ev_pmpm :: event where
  "ev_pmpm = [mu 10 1, mu 20 (- 1), mu 40 1, mu 50 (- 1)]"

definition ev_ppmm :: event where
  "ev_ppmm = [mu 40 1, mu 30 1, mu 20 (- 1), mu 10 (- 1)]"

definition ev_three :: event where
  "ev_three = [mu 40 1, mu 30 (- 1), mu 20 1]"

definition ev_pppp :: event where
  "ev_pppp = [mu 40 1, mu 30 1, mu 20 1, mu 10 1]"


text \<open>A stand-in for the pair mass in the examples.\<close>

definition pt_sum :: "lepton \<Rightarrow> lepton \<Rightarrow> real" where
  "pt_sum a b = pt a + pt b"

section \<open>A closed form of the loop nest\<close>

text \<open>
  The tuples the loops write for one event, as a list comprehension in the order of
  the loops. It is a proof device only: \<open>find_4lep_closed\<close> below shows that the
  loops compute it, and every property of the finder is then read off it.
\<close>

definition second_pairs :: "int list \<Rightarrow> nat \<Rightarrow> nat \<Rightarrow> nat \<Rightarrow> candidate list" where
  "second_pairs cs n i0 i1 =
     concat (map (\<lambda>i2. concat (map (\<lambda>i3.
        if distinct [i0, i1, i2, i3] \<and> cs ! i2 + cs ! i3 = 0 then [(i0, i1, i2, i3)] else [])
        [i2 + 1..<n])) [0..<n])"

definition all_cands :: "int list \<Rightarrow> nat \<Rightarrow> candidate list" where
  "all_cands cs n =
     concat (map (\<lambda>i0. concat (map (\<lambda>i1.
        if cs ! i0 + cs ! i1 = 0 then second_pairs cs n i0 i1 else [])
        [i0 + 1..<n])) [0..<n])"

definition emit :: "candidate list \<Rightarrow> open_builder \<Rightarrow> open_builder" where
  "emit l b = b\<lparr>current := current b @ l\<rparr>"

text \<open>The candidates of one event, from its muons.\<close>

definition event_cands :: "event \<Rightarrow> candidate list" where
  "event_cands ev = all_cands (map charge ev) (length ev)"

text \<open>The record that lines 456 to 468 build from a tuple whose indices are in range,
  and the choice that lines 470 and 471 make in the records of one event.\<close>

fun mk_fourmu :: "event \<Rightarrow> candidate \<Rightarrow> fourmu" where
  "mk_fourmu ev (i0, i1, i2, i3) =
     \<lparr>z1 = \<lparr>lep1 = ev ! i0, lep2 = ev ! i1\<rparr>, z2 = \<lparr>lep1 = ev ! i2, lep2 = ev ! i3\<rparr>\<rparr>"

definition best_of :: "(lepton \<Rightarrow> lepton \<Rightarrow> real) \<Rightarrow> fourmu list \<Rightarrow> fourmu list" where
  "best_of pmass fs =
     (case argmin (map (z1_dist pmass) fs) of None \<Rightarrow> [] | Some k \<Rightarrow> [fs ! k])"

definition event_best :: "(lepton \<Rightarrow> lepton \<Rightarrow> real) \<Rightarrow> event \<Rightarrow> fourmu list" where
  "event_best pmass ev = best_of pmass (map (mk_fourmu ev) (event_cands ev))"

section \<open>The loops compute the closed form\<close>

lemma emit_Nil: "emit [] b = b"
  by (simp add: emit_def)

lemma emit_emit: "emit l2 (emit l1 b) = emit (l1 @ l2) b"
  by (simp add: emit_def)

lemma for_each_emit:
  assumes "\<And>x b. x \<in> set xs \<Longrightarrow> f x b = Inr (emit (h x) b)"
  shows "for_each xs f b = Inr (emit (concat (map h xs)) b)"
  using assms
proof (induction xs arbitrary: b)
  case Nil
  show ?case by (simp add: emit_Nil)
next
  case (Cons x xs)
  have "for_each (x # xs) f b = for_each xs f (emit (h x) b)"
    using Cons.prems [of x b] by simp
  also have "\<dots> = Inr (emit (concat (map h xs)) (emit (h x) b))"
    using Cons.prems by (intro Cons.IH) simp
  finally show ?case by (simp add: emit_emit)
qed

lemma card4_distinct: "card {a, b, c, d} < 4 \<longleftrightarrow> \<not> distinct [a, b, c, (d::nat)]"
proof -
  have "card (set [a, b, c, d]) = length [a, b, c, d] \<longleftrightarrow> distinct [a, b, c, d]"
    using card_distinct distinct_card by metis
  moreover have "card (set [a, b, c, d]) \<le> length [a, b, c, d]"
    by (rule card_length)
  ultimately show ?thesis by auto
qed

lemma body_i3_closed:
  assumes "i2 < length cs" "i3 < length cs"
  shows "body_i3 cs i0 i1 i2 i3 b =
    Inr (emit (if distinct [i0, i1, i2, i3] \<and> cs ! i2 + cs ! i3 = 0
               then [(i0, i1, i2, i3)] else []) b)"
proof (cases "distinct [i0, i1, i2, i3]")
  case False
  then have "card {i0, i1, i2, i3} < 4" by (simp only: card4_distinct not_False_eq_True)
  then have "body_i3 cs i0 i1 i2 i3 b = Inr b" by (simp add: body_i3_def)
  moreover have "\<not> (distinct [i0, i1, i2, i3] \<and> cs ! i2 + cs ! i3 = 0)"
    using False by blast
  then have "(if distinct [i0, i1, i2, i3] \<and> cs ! i2 + cs ! i3 = 0
              then [(i0, i1, i2, i3)] else []) = []" by (rule if_not_P)
  ultimately show ?thesis by (simp only: emit_Nil)
next
  case True
  then have c: "\<not> card {i0, i1, i2, i3} < 4" by (simp only: card4_distinct not_not)
  have "body_i3 cs i0 i1 i2 i3 b =
        (if cs ! i2 + cs ! i3 \<noteq> 0 then Inr b else Inr (tuple4 i0 i1 i2 i3 b))"
    unfolding body_i3_def getitem_def using c assms by simp
  also have "\<dots> = Inr (emit (if cs ! i2 + cs ! i3 = 0 then [(i0, i1, i2, i3)] else []) b)"
    by (simp add: emit_def tuple4_def)
  finally show ?thesis using True by (simp only: simp_thms)
qed

lemma loops_i2_closed:
  assumes "n \<le> length cs"
  shows "for_each (py_range 0 n)
           (\<lambda>i2. for_each (py_range (i2 + 1) n) (body_i3 cs i0 i1 i2)) b
         = Inr (emit (second_pairs cs n i0 i1) b)"
  unfolding second_pairs_def py_range_def
proof (rule for_each_emit)
  fix i2 b'
  assume "i2 \<in> set [0..<n]"
  then have i2: "i2 < length cs" using assms by simp
  show "for_each [i2 + 1..<n] (body_i3 cs i0 i1 i2) b' =
        Inr (emit (concat (map (\<lambda>i3.
          if distinct [i0, i1, i2, i3] \<and> cs ! i2 + cs ! i3 = 0 then [(i0, i1, i2, i3)] else [])
          [i2 + 1..<n])) b')"
  proof (rule for_each_emit)
    fix i3 b''
    assume "i3 \<in> set [i2 + 1..<n]"
    then have "i3 < length cs" using assms by simp
    with i2 show "body_i3 cs i0 i1 i2 i3 b'' =
      Inr (emit (if distinct [i0, i1, i2, i3] \<and> cs ! i2 + cs ! i3 = 0
                 then [(i0, i1, i2, i3)] else []) b'')"
      by (rule body_i3_closed)
  qed
qed

lemma body_i1_closed:
  assumes "n \<le> length cs" "i0 < n" "i1 < n"
  shows "body_i1 cs n i0 i1 b =
    Inr (emit (if cs ! i0 + cs ! i1 = 0 then second_pairs cs n i0 i1 else []) b)"
proof -
  have "body_i1 cs n i0 i1 b =
        (if cs ! i0 + cs ! i1 \<noteq> 0 then Inr b
         else for_each (py_range 0 n)
                (\<lambda>i2. for_each (py_range (i2 + 1) n) (body_i3 cs i0 i1 i2)) b)"
    unfolding body_i1_def getitem_def using assms by simp
  also have "\<dots> = (if cs ! i0 + cs ! i1 \<noteq> 0 then Inr b
                   else Inr (emit (second_pairs cs n i0 i1) b))"
    by (simp only: loops_i2_closed [OF assms(1)])
  finally show ?thesis by (simp add: emit_Nil)
qed

lemma loops_i0_closed:
  assumes "n \<le> length cs"
  shows "for_each (py_range 0 n)
           (\<lambda>i0. for_each (py_range (i0 + 1) n) (body_i1 cs n i0)) b
         = Inr (emit (all_cands cs n) b)"
  unfolding all_cands_def py_range_def
proof (rule for_each_emit)
  fix i0 b'
  assume "i0 \<in> set [0..<n]"
  then have i0: "i0 < n" by simp
  show "for_each [i0 + 1..<n] (body_i1 cs n i0) b' =
        Inr (emit (concat (map (\<lambda>i1.
          if cs ! i0 + cs ! i1 = 0 then second_pairs cs n i0 i1 else [])
          [i0 + 1..<n])) b')"
  proof (rule for_each_emit)
    fix i1 b''
    assume "i1 \<in> set [i0 + 1..<n]"
    then have "i1 < n" by simp
    with assms i0 show "body_i1 cs n i0 i1 b'' =
      Inr (emit (if cs ! i0 + cs ! i1 = 0 then second_pairs cs n i0 i1 else []) b'')"
      by (rule body_i1_closed)
  qed
qed

lemma event_body_closed:
  "event_body ev (map charge ev) b = Inr \<lparr>finished = finished b @ [event_cands ev]\<rparr>"
proof -
  have "length ev \<le> length (map charge ev)" by simp
  then have "for_each (py_range 0 (length ev))
          (\<lambda>i0. for_each (py_range (i0 + 1) (length ev))
                 (body_i1 (map charge ev) (length ev) i0)) (begin_list b)
        = Inr (emit (event_cands ev) (begin_list b))"
    unfolding event_cands_def by (rule loops_i0_closed)
  then show ?thesis
    unfolding event_body_def Let_def
    by (simp add: emit_def begin_list_def end_list_def)
qed

lemma for_each_events:
  "for_each (zip evs (map (map charge) evs))
     (\<lambda>(leptons, lep_charge). event_body leptons lep_charge) b
   = Inr \<lparr>finished = finished b @ map event_cands evs\<rparr>"
proof (induction evs arbitrary: b)
  case Nil
  show ?case by simp
next
  case (Cons ev evs)
  show ?case by (simp add: event_body_closed Cons.IH)
qed

lemma find_4lep_closed:
  "find_4lep evs b = Inr \<lparr>finished = finished b @ map event_cands evs\<rparr>"
  unfolding find_4lep_def by (rule for_each_events)

lemma fourmuon_idx_closed: "fourmuon_idx evs = Inr (map event_cands evs)"
  by (simp add: fourmuon_idx_def find_4lep_closed snapshot_def ArrayBuilder_def)

section \<open>Properties of the closed form\<close>

lemma find_4lep_snapshot:
  assumes "find_4lep evs b = Inr b'"
  shows "snapshot b' = snapshot b @ map event_cands evs"
  using assms by (auto simp: find_4lep_closed snapshot_def)

lemma find_4lep_fresh:
  assumes "find_4lep evs ArrayBuilder = Inr b" "k < length evs"
  shows "snapshot b ! k = all_cands (map charge (evs ! k)) (length (evs ! k))"
  using find_4lep_snapshot [OF assms(1)] assms(2)
  by (simp add: snapshot_def ArrayBuilder_def event_cands_def)

lemma second_pairs_iff:
  "(a, b, c, d) \<in> set (second_pairs cs n i0 i1) \<longleftrightarrow>
     a = i0 \<and> b = i1 \<and> c < d \<and> d < n \<and> distinct [i0, i1, c, d] \<and> cs ! c + cs ! d = 0"
  by (auto simp: second_pairs_def)

lemma all_cands_iff:
  "(a, b, c, d) \<in> set (all_cands cs n) \<longleftrightarrow>
     a < b \<and> b < n \<and> c < d \<and> d < n \<and> distinct [a, b, c, d]
     \<and> cs ! a + cs ! b = 0 \<and> cs ! c + cs ! d = 0"
  by (auto simp: all_cands_def second_pairs_iff)

lemma sorted_wrt_concat_map:
  assumes "sorted_wrt R xs"
    and "\<And>x. x \<in> set xs \<Longrightarrow> sorted_wrt P (f x)"
    and "\<And>x y a b. R x y \<Longrightarrow> x \<in> set xs \<Longrightarrow> y \<in> set xs \<Longrightarrow>
           a \<in> set (f x) \<Longrightarrow> b \<in> set (f y) \<Longrightarrow> P a b"
  shows "sorted_wrt P (concat (map f xs))"
  using assms by (induction xs) (auto simp: sorted_wrt_append)

lemma second_pairs_sorted: "sorted_wrt lex_less (second_pairs cs n i0 i1)"
  unfolding second_pairs_def
proof (rule sorted_wrt_concat_map [where R = "(<)"])
  show "sorted_wrt (<) [0..<n]" by (rule sorted_wrt_upt)
next
  fix i2
  show "sorted_wrt lex_less (concat (map (\<lambda>i3.
          if distinct [i0, i1, i2, i3] \<and> cs ! i2 + cs ! i3 = 0 then [(i0, i1, i2, i3)] else [])
          [i2 + 1..<n]))"
  proof (rule sorted_wrt_concat_map [where R = "(<)"])
    show "sorted_wrt (<) [i2 + 1..<n]" by (rule sorted_wrt_upt)
  qed (auto split: if_splits)
next
  fix x y :: nat and a b :: candidate
  assume "x < y"
    and "a \<in> set (concat (map (\<lambda>i3.
          if distinct [i0, i1, x, i3] \<and> cs ! x + cs ! i3 = 0 then [(i0, i1, x, i3)] else [])
          [x + 1..<n]))"
    and "b \<in> set (concat (map (\<lambda>i3.
          if distinct [i0, i1, y, i3] \<and> cs ! y + cs ! i3 = 0 then [(i0, i1, y, i3)] else [])
          [y + 1..<n]))"
  then show "lex_less a b" by (auto split: if_splits)
qed

lemma all_cands_sorted: "sorted_wrt lex_less (all_cands cs n)"
  unfolding all_cands_def
proof (rule sorted_wrt_concat_map [where R = "(<)"])
  show "sorted_wrt (<) [0..<n]" by (rule sorted_wrt_upt)
next
  fix i0
  show "sorted_wrt lex_less (concat (map (\<lambda>i1.
          if cs ! i0 + cs ! i1 = 0 then second_pairs cs n i0 i1 else []) [i0 + 1..<n]))"
  proof (rule sorted_wrt_concat_map [where R = "(<)"])
    show "sorted_wrt (<) [i0 + 1..<n]" by (rule sorted_wrt_upt)
  next
    fix i1
    show "sorted_wrt lex_less (if cs ! i0 + cs ! i1 = 0 then second_pairs cs n i0 i1 else [])"
      by (simp add: second_pairs_sorted)
  next
    fix x y :: nat and a b :: candidate
    assume "x < y"
      and "a \<in> set (if cs ! i0 + cs ! x = 0 then second_pairs cs n i0 x else [])"
      and "b \<in> set (if cs ! i0 + cs ! y = 0 then second_pairs cs n i0 y else [])"
    then show "lex_less a b"
      by (cases a; cases b) (auto split: if_splits simp: second_pairs_iff)
  qed
next
  fix x y :: nat and a b :: candidate
  assume "x < y"
    and "a \<in> set (concat (map (\<lambda>i1.
          if cs ! x + cs ! i1 = 0 then second_pairs cs n x i1 else []) [x + 1..<n]))"
    and "b \<in> set (concat (map (\<lambda>i1.
          if cs ! y + cs ! i1 = 0 then second_pairs cs n y i1 else []) [y + 1..<n]))"
  then show "lex_less a b"
    by (cases a; cases b) (auto split: if_splits simp: second_pairs_iff)
qed

lemma lex_less_irrefl: "\<not> lex_less c c"
  by (cases c) simp

lemma sorted_wrt_irrefl_distinct:
  assumes "sorted_wrt P xs" "\<And>x. \<not> P x x"
  shows "distinct xs"
  using assms by (induction xs) auto

lemma all_cands_distinct: "distinct (all_cands cs n)"
  using all_cands_sorted lex_less_irrefl by (rule sorted_wrt_irrefl_distinct)

lemma length_concat_map_le:
  assumes "\<And>x. x \<in> set xs \<Longrightarrow> length (f x) \<le> m"
  shows "length (concat (map f xs)) \<le> length xs * m"
  using assms by (induction xs) (auto simp: add_le_mono)

lemma second_pairs_length: "length (second_pairs cs n i0 i1) \<le> n * n"
proof -
  have "length (second_pairs cs n i0 i1) \<le> length [0..<n] * (n * 1)"
    unfolding second_pairs_def
  proof (rule length_concat_map_le)
    fix i2
    have "length (concat (map (\<lambda>i3.
          if distinct [i0, i1, i2, i3] \<and> cs ! i2 + cs ! i3 = 0 then [(i0, i1, i2, i3)] else [])
          [i2 + 1..<n])) \<le> length [i2 + 1..<n] * 1"
      by (rule length_concat_map_le) simp
    also have "\<dots> \<le> n * 1" by simp
    finally show "length (concat (map (\<lambda>i3.
          if distinct [i0, i1, i2, i3] \<and> cs ! i2 + cs ! i3 = 0 then [(i0, i1, i2, i3)] else [])
          [i2 + 1..<n])) \<le> n * 1" .
  qed
  then show ?thesis by simp
qed

lemma all_cands_length: "length (all_cands cs n) \<le> n ^ 4"
proof -
  have "length (all_cands cs n) \<le> length [0..<n] * (n * (n * n))"
    unfolding all_cands_def
  proof (rule length_concat_map_le)
    fix i0
    have "length (concat (map (\<lambda>i1.
          if cs ! i0 + cs ! i1 = 0 then second_pairs cs n i0 i1 else []) [i0 + 1..<n]))
          \<le> length [i0 + 1..<n] * (n * n)"
      by (rule length_concat_map_le) (simp add: second_pairs_length)
    also have "\<dots> \<le> n * (n * n)" by simp
    finally show "length (concat (map (\<lambda>i1.
          if cs ! i0 + cs ! i1 = 0 then second_pairs cs n i0 i1 else []) [i0 + 1..<n]))
          \<le> n * (n * n)" .
  qed
  then show ?thesis by (simp add: power4_eq_xxxx mult.assoc)
qed

section \<open>The candidates of the finder\<close>

text \<open>
  C1. Every tuple \<open>(i0, i1, i2, i3)\<close> that \<open>find_4lep\<close> writes for an event has
  charges that cancel in the first pair and in the second pair, four pairwise distinct
  indices, all of them positions of the event, and \<open>i0 < i1\<close> and \<open>i2 < i3\<close>.
\<close>

theorem find_4lep_candidate_valid:
  assumes "find_4lep muons ArrayBuilder = Inr b"
    and "k < length muons"
    and "(i0, i1, i2, i3) \<in> set (snapshot b ! k)"
  shows "charge (muons ! k ! i0) + charge (muons ! k ! i1) = 0
       \<and> charge (muons ! k ! i2) + charge (muons ! k ! i3) = 0
       \<and> distinct [i0, i1, i2, i3]
       \<and> i0 < length (muons ! k) \<and> i1 < length (muons ! k)
       \<and> i2 < length (muons ! k) \<and> i3 < length (muons ! k)
       \<and> i0 < i1 \<and> i2 < i3"
proof -
  let ?ev = "muons ! k"
  have "(i0, i1, i2, i3) \<in> set (all_cands (map charge ?ev) (length ?ev))"
    using assms by (simp only: find_4lep_fresh)
  then have *: "i0 < i1" "i1 < length ?ev" "i2 < i3" "i3 < length ?ev"
    "distinct [i0, i1, i2, i3]"
    "map charge ?ev ! i0 + map charge ?ev ! i1 = 0"
    "map charge ?ev ! i2 + map charge ?ev ! i3 = 0"
    by (simp_all only: all_cands_iff)
  then have "i0 < length ?ev" "i2 < length ?ev" by simp_all
  with * show ?thesis by simp
qed

theorem find_4lep_candidate_valid_witness:
  "find_4lep [ev_three, ev_pmpm] ArrayBuilder =
     Inr \<lparr>finished = [[], [(0, 1, 2, 3), (0, 3, 1, 2), (1, 2, 0, 3), (2, 3, 0, 1)]]\<rparr>
   \<and> charge (ev_pmpm ! 1) + charge (ev_pmpm ! 2) = 0
   \<and> charge (ev_pmpm ! 0) + charge (ev_pmpm ! 3) = 0"
proof -
  have run: "find_4lep [ev_three, ev_pmpm] ArrayBuilder =
     Inr \<lparr>finished = [[], [(0, 1, 2, 3), (0, 3, 1, 2), (1, 2, 0, 3), (2, 3, 0, 1)]]\<rparr>"
    by code_simp
  have "(1, 2, 0, 3) \<in> set (snapshot
      \<lparr>finished = [[], [(0, 1, 2, 3), (0, 3, 1, 2), (1, 2, 0, 3), (2, 3, 0, 1)]]\<rparr> ! 1)"
    by (simp add: snapshot_def)
  with find_4lep_candidate_valid [OF run, of 1 1 2 0 3] run show ?thesis by simp
qed

text \<open>
  C9. The candidates of an event are closed under swapping the two pairs: with
  \<open>(i0, i1, i2, i3)\<close> the finder also writes \<open>(i2, i3, i0, i1)\<close>, since the loop over
  \<open>i2\<close> starts at 0.
\<close>

theorem find_4lep_swap_closed:
  assumes "find_4lep muons ArrayBuilder = Inr b"
    and "k < length muons"
    and "(i0, i1, i2, i3) \<in> set (snapshot b ! k)"
  shows "(i2, i3, i0, i1) \<in> set (snapshot b ! k)"
proof -
  let ?cs = "map charge (muons ! k)" and ?n = "length (muons ! k)"
  have eq: "snapshot b ! k = all_cands ?cs ?n"
    using assms(1,2) by (rule find_4lep_fresh)
  with assms(3) have "(i0, i1, i2, i3) \<in> set (all_cands ?cs ?n)" by simp
  then have "i0 < i1 \<and> i1 < ?n \<and> i2 < i3 \<and> i3 < ?n \<and> distinct [i0, i1, i2, i3]
      \<and> ?cs ! i0 + ?cs ! i1 = 0 \<and> ?cs ! i2 + ?cs ! i3 = 0"
    by (simp only: all_cands_iff)
  then have "i2 < i3 \<and> i3 < ?n \<and> i0 < i1 \<and> i1 < ?n \<and> distinct [i2, i3, i0, i1]
      \<and> ?cs ! i2 + ?cs ! i3 = 0 \<and> ?cs ! i0 + ?cs ! i1 = 0"
    by auto
  then have "(i2, i3, i0, i1) \<in> set (all_cands ?cs ?n)"
    by (simp only: all_cands_iff)
  with eq show ?thesis by simp
qed

theorem find_4lep_swap_closed_witness:
  "find_4lep [ev_ppmm] ArrayBuilder =
     Inr \<lparr>finished = [[(0, 2, 1, 3), (0, 3, 1, 2), (1, 2, 0, 3), (1, 3, 0, 2)]]\<rparr>
   \<and> (1, 3, 0, 2) \<in> set [(0, 2, 1, 3), (0, 3, 1, 2), (1, 2, 0, 3), (1, 3, 0, 2)]"
proof -
  have run: "find_4lep [ev_ppmm] ArrayBuilder =
     Inr \<lparr>finished = [[(0, 2, 1, 3), (0, 3, 1, 2), (1, 2, 0, 3), (1, 3, 0, 2)]]\<rparr>"
    by code_simp
  have "(0, 2, 1, 3) \<in> set (snapshot
      \<lparr>finished = [[(0, 2, 1, 3), (0, 3, 1, 2), (1, 2, 0, 3), (1, 3, 0, 2)]]\<rparr> ! 0)"
    by (simp add: snapshot_def)
  with find_4lep_swap_closed [OF run, of 0 0 2 1 3] run show ?thesis
    by (simp add: snapshot_def)
qed

text \<open>
  C4. An event with fewer than four muons, and an event in which no two muons have
  charges that sum to zero, gets the empty list of candidates.
\<close>

theorem find_4lep_empty:
  assumes "find_4lep muons ArrayBuilder = Inr b"
    and "k < length muons"
    and "length (muons ! k) < 4
         \<or> (\<forall>i < length (muons ! k). \<forall>j < length (muons ! k).
              i \<noteq> j \<longrightarrow> charge (muons ! k ! i) + charge (muons ! k ! j) \<noteq> 0)"
  shows "snapshot b ! k = []"
proof (rule ccontr)
  let ?ev = "muons ! k"
  let ?cs = "map charge ?ev" and ?n = "length ?ev"
  assume "snapshot b ! k \<noteq> []"
  moreover have "snapshot b ! k = all_cands ?cs ?n"
    using assms(1,2) by (rule find_4lep_fresh)
  ultimately have "all_cands ?cs ?n \<noteq> []" by simp
  then have "hd (all_cands ?cs ?n) \<in> set (all_cands ?cs ?n)"
    by (rule hd_in_set)
  moreover obtain i0 i1 i2 i3 where "hd (all_cands ?cs ?n) = (i0, i1, i2, i3)"
    by (cases "hd (all_cands ?cs ?n)")
  ultimately have "(i0, i1, i2, i3) \<in> set (all_cands ?cs ?n)" by simp
  then have *: "i0 < i1" "i1 < ?n" "i2 < i3" "i3 < ?n" "distinct [i0, i1, i2, i3]"
    "?cs ! i0 + ?cs ! i1 = 0"
    by (simp_all only: all_cands_iff)
  from assms(3) show False
  proof
    assume "?n < 4"
    with * show False by auto
  next
    assume none: "\<forall>i < ?n. \<forall>j < ?n. i \<noteq> j \<longrightarrow> charge (?ev ! i) + charge (?ev ! j) \<noteq> 0"
    from * have "i0 < ?n" "i0 \<noteq> i1" by simp_all
    with none \<open>i1 < ?n\<close> have "charge (?ev ! i0) + charge (?ev ! i1) \<noteq> 0" by blast
    with * \<open>i0 < ?n\<close> show False by simp
  qed
qed

theorem find_4lep_empty_witness:
  "find_4lep [ev_three, ev_pppp] ArrayBuilder = Inr \<lparr>finished = [[], []]\<rparr>
   \<and> length ev_three < 4
   \<and> length ev_pppp = 4
   \<and> map charge ev_pppp = [1, 1, 1, 1]
   \<and> snapshot \<lparr>finished = [[], []]\<rparr> ! 0 = []
   \<and> snapshot \<lparr>finished = [[], []]\<rparr> ! 1 = []"
proof -
  have run: "find_4lep [ev_three, ev_pppp] ArrayBuilder =
     Inr \<lparr>finished = [[], []]\<rparr>"
    by code_simp
  have short: "length ev_three < 4" by (simp add: ev_three_def)
  have four: "length ev_pppp = 4" "map charge ev_pppp = [1, 1, 1, 1]"
    by (simp_all add: ev_pppp_def mu_def)
  have "\<forall>m \<in> set ev_pppp. charge m = 1" by (simp add: ev_pppp_def mu_def)
  then have same: "\<forall>i < length ev_pppp. \<forall>j < length ev_pppp.
        i \<noteq> j \<longrightarrow> charge (ev_pppp ! i) + charge (ev_pppp ! j) \<noteq> 0"
    by (simp add: all_set_conv_all_nth)
  have "snapshot \<lparr>finished = [[], []]\<rparr> ! 0 = []"
    using find_4lep_empty [OF run, of 0] short by simp
  moreover have "snapshot \<lparr>finished = [[], []]\<rparr> ! 1 = []"
    using find_4lep_empty [OF run, of 1] same by simp
  ultimately show ?thesis using run short four by blast
qed

text \<open>
  C8. The finder is total: on every list of events, whatever their lengths and
  charges, and on every builder, it returns a builder and no error; it adds one list
  per event, and the list of an event of \<open>N\<close> muons has at most \<open>N ^ 4\<close> tuples, one
  per turn of the innermost loop at most.
\<close>

theorem find_4lep_total:
  "\<exists>b'. find_4lep muons b = Inr b'
     \<and> length (snapshot b') = length (snapshot b) + length muons
     \<and> (\<forall>k < length muons.
          length (snapshot b' ! (length (snapshot b) + k)) \<le> length (muons ! k) ^ 4)"
proof -
  obtain b' where run: "find_4lep muons b = Inr b'"
    by (simp add: find_4lep_closed)
  then have snap: "snapshot b' = snapshot b @ map event_cands muons"
    by (rule find_4lep_snapshot)
  have "length (snapshot b' ! (length (snapshot b) + k)) \<le> length (muons ! k) ^ 4"
    if "k < length muons" for k
    using that by (simp add: snap nth_append event_cands_def all_cands_length)
  with run snap show ?thesis by simp
qed

theorem find_4lep_total_witness:
  "\<exists>b'. find_4lep [ev_three, ev_pmpm] ArrayBuilder = Inr b'
     \<and> length (snapshot b') = 2
     \<and> length (snapshot b' ! 0) \<le> length ev_three ^ 4
     \<and> length (snapshot b' ! 1) \<le> length ev_pmpm ^ 4"
proof -
  obtain b' where b': "find_4lep [ev_three, ev_pmpm] ArrayBuilder = Inr b'"
    "length (snapshot b') = length (snapshot ArrayBuilder) + length [ev_three, ev_pmpm]"
    "\<forall>k < length [ev_three, ev_pmpm].
       length (snapshot b' ! (length (snapshot ArrayBuilder) + k))
         \<le> length ([ev_three, ev_pmpm] ! k) ^ 4"
    using find_4lep_total [of "[ev_three, ev_pmpm]" ArrayBuilder] by blast
  have z: "length (snapshot ArrayBuilder) = 0" by (simp add: snapshot_def ArrayBuilder_def)
  from b'(3) have "length (snapshot b' ! (length (snapshot ArrayBuilder) + 0))
         \<le> length ([ev_three, ev_pmpm] ! 0) ^ 4"
    by (metis length_Cons zero_less_Suc)
  then have k0: "length (snapshot b' ! 0) \<le> length ev_three ^ 4" by (simp add: z)
  from b'(3) have "length (snapshot b' ! (length (snapshot ArrayBuilder) + 1))
         \<le> length ([ev_three, ev_pmpm] ! 1) ^ 4"
    by (metis One_nat_def length_Cons list.size(3) lessI)
  then have k1: "length (snapshot b' ! 1) \<le> length ev_pmpm ^ 4" by (simp add: z)
  from b'(1,2) z k0 k1 show ?thesis by auto
qed

text \<open>
  C6. The finder is a function of its list of events: two calls on the same events,
  whatever the builders they are given, add the same lists in the same order; and the
  list of each event is sorted in the lexicographic order on \<open>(i0, i1, i2, i3)\<close>.
\<close>

theorem find_4lep_deterministic_sorted:
  assumes "find_4lep muons b1 = Inr b1'" and "find_4lep muons b2 = Inr b2'"
  shows "drop (length (snapshot b1)) (snapshot b1') = drop (length (snapshot b2)) (snapshot b2')
       \<and> length (drop (length (snapshot b1)) (snapshot b1')) = length muons
       \<and> (\<forall>l \<in> set (drop (length (snapshot b1)) (snapshot b1')). sorted_wrt lex_less l)"
proof -
  have 1: "drop (length (snapshot b1)) (snapshot b1') = map event_cands muons"
    using find_4lep_snapshot [OF assms(1)] by simp
  have 2: "drop (length (snapshot b2)) (snapshot b2') = map event_cands muons"
    using find_4lep_snapshot [OF assms(2)] by simp
  have "\<forall>l \<in> set (map event_cands muons). sorted_wrt lex_less l"
    by (auto simp: event_cands_def all_cands_sorted)
  with 1 2 show ?thesis by simp
qed

theorem find_4lep_deterministic_sorted_witness:
  "find_4lep [ev_pmpm] ArrayBuilder =
     Inr \<lparr>finished = [[(0, 1, 2, 3), (0, 3, 1, 2), (1, 2, 0, 3), (2, 3, 0, 1)]]\<rparr>
   \<and> find_4lep [ev_pmpm] \<lparr>finished = [[(7, 8, 5, 6)]]\<rparr> =
     Inr \<lparr>finished = [[(7, 8, 5, 6)], [(0, 1, 2, 3), (0, 3, 1, 2), (1, 2, 0, 3), (2, 3, 0, 1)]]\<rparr>
   \<and> sorted_wrt lex_less [(0, 1, 2, 3), (0, 3, 1, 2), (1, 2, 0, 3), (2, 3, 0, 1)]"
proof -
  have run1: "find_4lep [ev_pmpm] ArrayBuilder =
     Inr \<lparr>finished = [[(0, 1, 2, 3), (0, 3, 1, 2), (1, 2, 0, 3), (2, 3, 0, 1)]]\<rparr>"
    by code_simp
  have run2: "find_4lep [ev_pmpm] \<lparr>finished = [[(7, 8, 5, 6)]]\<rparr> =
     Inr \<lparr>finished = [[(7, 8, 5, 6)], [(0, 1, 2, 3), (0, 3, 1, 2), (1, 2, 0, 3), (2, 3, 0, 1)]]\<rparr>"
    by code_simp
  from find_4lep_deterministic_sorted [OF run1 run2]
  have "sorted_wrt lex_less [(0, 1, 2, 3), (0, 3, 1, 2), (1, 2, 0, 3), (2, 3, 0, 1)]"
    by (simp add: snapshot_def ArrayBuilder_def)
  with run1 run2 show ?thesis by blast
qed

text \<open>
  C3 as the finder computes it. An event of exactly four muons with charges
  \<open>+1, -1, +1, -1\<close> gets exactly four candidates, in this order:
  \<open>(0, 1, 2, 3)\<close>, \<open>(0, 3, 1, 2)\<close>, \<open>(1, 2, 0, 3)\<close> and \<open>(2, 3, 0, 1)\<close>: each of the two
  splittings in both orders of its pairs.
\<close>

theorem find_4lep_pmpm:
  assumes "map charge ev = [1, - 1, 1, - 1]"
  shows "find_4lep [ev] ArrayBuilder =
     Inr \<lparr>finished = [[(0, 1, 2, 3), (0, 3, 1, 2), (1, 2, 0, 3), (2, 3, 0, 1)]]\<rparr>"
proof -
  have "length (map charge ev) = 4" by (simp only: assms) simp
  then have len: "length ev = 4" by simp
  have "all_cands [1, - 1, 1, - 1] 4 = [(0, 1, 2, 3), (0, 3, 1, 2), (1, 2, 0, 3), (2, 3, 0, 1)]"
    by code_simp
  then have "event_cands ev = [(0, 1, 2, 3), (0, 3, 1, 2), (1, 2, 0, 3), (2, 3, 0, 1)]"
    by (simp add: event_cands_def assms len)
  then show ?thesis by (simp add: find_4lep_closed ArrayBuilder_def)
qed

theorem find_4lep_pmpm_witness:
  "map charge ev_pmpm = [1, - 1, 1, - 1]
   \<and> find_4lep [ev_pmpm] ArrayBuilder =
     Inr \<lparr>finished = [[(0, 1, 2, 3), (0, 3, 1, 2), (1, 2, 0, 3), (2, 3, 0, 1)]]\<rparr>"
proof -
  have c: "map charge ev_pmpm = [1, - 1, 1, - 1]" by (simp add: ev_pmpm_def mu_def)
  from find_4lep_pmpm [OF c] c show ?thesis by simp
qed

text \<open>The claim C3 as it is written, "exactly two candidates, \<open>(0, 1, 2, 3)\<close> and
  \<open>(0, 3, 1, 2)\<close>", fails on such an event: the finder writes four.\<close>

theorem find_4lep_pmpm_not_two:
  "map charge ev_pmpm = [1, - 1, 1, - 1]
   \<and> fourmuon_idx [ev_pmpm] \<noteq> Inr [[(0, 1, 2, 3), (0, 3, 1, 2)]]
   \<and> fourmuon_idx [ev_pmpm] \<noteq> Inr [[(0, 3, 1, 2), (0, 1, 2, 3)]]
   \<and> map_sum id (map length) (fourmuon_idx [ev_pmpm]) = Inr [4]"
proof -
  have "fourmuon_idx [ev_pmpm] = Inr [[(0, 1, 2, 3), (0, 3, 1, 2), (1, 2, 0, 3), (2, 3, 0, 1)]]"
    by code_simp
  moreover have "map charge ev_pmpm = [1, - 1, 1, - 1]" by (simp add: ev_pmpm_def mu_def)
  ultimately show ?thesis by simp
qed

section \<open>Splittings and their two orders\<close>

lemma ordered_pair_eq:
  assumes "{a, b} = {c, d}" "a < b" "c < (d::nat)"
  shows "a = c \<and> b = d"
proof -
  from assms(1) have "(a = c \<and> b = d) \<or> (a = d \<and> b = c)"
    by (simp only: doubleton_eq_iff)
  with assms(2,3) show ?thesis by auto
qed

lemma same_split_ordered:
  assumes "a0 < a1" "a2 < a3" "b0 < b1" "b2 < b3"
  shows "same_split (a0, a1, a2, a3) (b0, b1, b2, b3) \<longleftrightarrow>
         (b0, b1, b2, b3) = (a0, a1, a2, a3) \<or> (b0, b1, b2, b3) = (a2, a3, a0, a1)"
proof
  assume "same_split (a0, a1, a2, a3) (b0, b1, b2, b3)"
  then have "{{a0, a1}, {a2, a3}} = {{b0, b1}, {b2, b3}}"
    by (simp only: same_split.simps)
  then have "({a0, a1} = {b0, b1} \<and> {a2, a3} = {b2, b3})
           \<or> ({a0, a1} = {b2, b3} \<and> {a2, a3} = {b0, b1})"
    by (rule doubleton_eq_iff [THEN iffD1])
  then show "(b0, b1, b2, b3) = (a0, a1, a2, a3) \<or> (b0, b1, b2, b3) = (a2, a3, a0, a1)"
  proof
    assume e: "{a0, a1} = {b0, b1} \<and> {a2, a3} = {b2, b3}"
    have "a0 = b0 \<and> a1 = b1" using e assms(1,3) by (intro ordered_pair_eq) simp_all
    moreover have "a2 = b2 \<and> a3 = b3" using e assms(2,4) by (intro ordered_pair_eq) simp_all
    ultimately show ?thesis by simp
  next
    assume e: "{a0, a1} = {b2, b3} \<and> {a2, a3} = {b0, b1}"
    have "a0 = b2 \<and> a1 = b3" using e assms(1,4) by (intro ordered_pair_eq) simp_all
    moreover have "a2 = b0 \<and> a3 = b1" using e assms(2,3) by (intro ordered_pair_eq) simp_all
    ultimately show ?thesis by simp
  qed
next
  assume "(b0, b1, b2, b3) = (a0, a1, a2, a3) \<or> (b0, b1, b2, b3) = (a2, a3, a0, a1)"
  then show "same_split (a0, a1, a2, a3) (b0, b1, b2, b3)"
  proof
    assume "(b0, b1, b2, b3) = (a0, a1, a2, a3)"
    then show ?thesis by simp
  next
    assume "(b0, b1, b2, b3) = (a2, a3, a0, a1)"
    then have "b0 = a2" "b1 = a3" "b2 = a0" "b3 = a1" by simp_all
    then show ?thesis by (simp only: same_split.simps insert_commute)
  qed
qed

lemma same_split_refl: "same_split c c"
  by (cases c) simp

lemma same_split_swap: "same_split c (swap_pairs c)"
proof -
  obtain a0 a1 a2 a3 where c: "c = (a0, a1, a2, a3)" by (cases c)
  have "{{a0, a1}, {a2, a3}} = {{a2, a3}, {a0, a1}}" by (rule insert_commute)
  then show ?thesis by (simp only: c swap_pairs.simps same_split.simps)
qed

lemma all_cands_same_split:
  assumes "c \<in> set (all_cands cs n)"
  shows "{x. same_split c x} \<inter> set (all_cands cs n) = {c, swap_pairs c}"
    and "c \<noteq> swap_pairs c"
proof -
  obtain a0 a1 a2 a3 where c: "c = (a0, a1, a2, a3)" by (cases c)
  with assms have m: "(a0, a1, a2, a3) \<in> set (all_cands cs n)" by simp
  then have a: "a0 < a1" "a1 < n" "a2 < a3" "a3 < n" "distinct [a0, a1, a2, a3]"
    "cs ! a0 + cs ! a1 = 0" "cs ! a2 + cs ! a3 = 0"
    by (simp_all only: all_cands_iff)
  then have sw: "(a2, a3, a0, a1) \<in> set (all_cands cs n)"
    by (simp add: all_cands_iff)
  show "c \<noteq> swap_pairs c" using a(5) c by auto
  show "{x. same_split c x} \<inter> set (all_cands cs n) = {c, swap_pairs c}"
  proof (rule set_eqI)
    fix x :: candidate
    obtain b0 b1 b2 b3 where x: "x = (b0, b1, b2, b3)" by (cases x)
    show "x \<in> {x. same_split c x} \<inter> set (all_cands cs n) \<longleftrightarrow> x \<in> {c, swap_pairs c}"
    proof
      assume "x \<in> {x. same_split c x} \<inter> set (all_cands cs n)"
      then have s: "same_split (a0, a1, a2, a3) (b0, b1, b2, b3)"
        and "(b0, b1, b2, b3) \<in> set (all_cands cs n)"
        using c x by simp_all
      then have "b0 < b1" "b2 < b3" by (simp_all only: all_cands_iff)
      with s a(1,3) have "(b0, b1, b2, b3) = (a0, a1, a2, a3) \<or> (b0, b1, b2, b3) = (a2, a3, a0, a1)"
        by (simp only: same_split_ordered)
      then show "x \<in> {c, swap_pairs c}" using c x by auto
    next
      assume "x \<in> {c, swap_pairs c}"
      then have "x = (a0, a1, a2, a3) \<or> x = (a2, a3, a0, a1)" using c by simp
      then show "x \<in> {x. same_split c x} \<inter> set (all_cands cs n)"
      proof
        assume "x = (a0, a1, a2, a3)"
        then show ?thesis using m c same_split_refl [of c] by simp
      next
        assume "x = (a2, a3, a0, a1)"
        then show ?thesis using sw c same_split_swap [of c] by simp
      qed
    qed
  qed
qed

lemma all_cands_split_twice:
  assumes "c \<in> set (all_cands cs n)"
  shows "length (filter (same_split c) (all_cands cs n)) = 2"
proof -
  have "length (filter (same_split c) (all_cands cs n))
        = card ({x. same_split c x} \<inter> set (all_cands cs n))"
    using all_cands_distinct by (rule distinct_length_filter)
  also have "\<dots> = card {c, swap_pairs c}"
    using assms by (simp only: all_cands_same_split(1))
  also have "\<dots> = 2"
    using all_cands_same_split(2) [OF assms] by simp
  finally show ?thesis .
qed

text \<open>
  C5 as the finder computes it. No two candidates of an event are the same tuple
  \<open>(i0, i1, i2, i3)\<close>; every splitting of four indices into two pairs that occurs,
  occurs exactly twice, once in each order of its two pairs.
\<close>

theorem find_4lep_no_duplicate_tuple:
  assumes "find_4lep muons ArrayBuilder = Inr b"
    and "k < length muons"
  shows "distinct (snapshot b ! k)
       \<and> (\<forall>c \<in> set (snapshot b ! k).
            swap_pairs c \<in> set (snapshot b ! k)
            \<and> length (filter (same_split c) (snapshot b ! k)) = 2)"
proof -
  let ?cs = "map charge (muons ! k)" and ?n = "length (muons ! k)"
  have eq: "snapshot b ! k = all_cands ?cs ?n"
    using assms by (rule find_4lep_fresh)
  have "swap_pairs c \<in> set (all_cands ?cs ?n)" if "c \<in> set (all_cands ?cs ?n)" for c
    using all_cands_same_split(1) [OF that] by blast
  then show ?thesis
    by (simp add: eq all_cands_distinct all_cands_split_twice)
qed

theorem find_4lep_no_duplicate_tuple_witness:
  "find_4lep [ev_ppmm] ArrayBuilder =
     Inr \<lparr>finished = [[(0, 2, 1, 3), (0, 3, 1, 2), (1, 2, 0, 3), (1, 3, 0, 2)]]\<rparr>
   \<and> distinct [(0, 2, 1, 3), (0, 3, 1, 2), (1, 2, 0, 3), (1, 3, 0, 2) :: candidate]
   \<and> length (filter (same_split (0, 3, 1, 2))
        [(0, 2, 1, 3), (0, 3, 1, 2), (1, 2, 0, 3), (1, 3, 0, 2)]) = 2"
proof -
  have run: "find_4lep [ev_ppmm] ArrayBuilder =
     Inr \<lparr>finished = [[(0, 2, 1, 3), (0, 3, 1, 2), (1, 2, 0, 3), (1, 3, 0, 2)]]\<rparr>"
    by code_simp
  have "distinct (snapshot \<lparr>finished = [[(0, 2, 1, 3), (0, 3, 1, 2), (1, 2, 0, 3), (1, 3, 0, 2)]]\<rparr> ! 0)
     \<and> (\<forall>c \<in> set (snapshot \<lparr>finished = [[(0, 2, 1, 3), (0, 3, 1, 2), (1, 2, 0, 3), (1, 3, 0, 2)]]\<rparr> ! 0).
          swap_pairs c \<in> set (snapshot \<lparr>finished = [[(0, 2, 1, 3), (0, 3, 1, 2), (1, 2, 0, 3), (1, 3, 0, 2)]]\<rparr> ! 0)
          \<and> length (filter (same_split c) (snapshot
              \<lparr>finished = [[(0, 2, 1, 3), (0, 3, 1, 2), (1, 2, 0, 3), (1, 3, 0, 2)]]\<rparr> ! 0)) = 2)"
    using find_4lep_no_duplicate_tuple [OF run, of 0] by simp
  then have "distinct [(0, 2, 1, 3), (0, 3, 1, 2), (1, 2, 0, 3), (1, 3, 0, 2) :: candidate]
     \<and> (\<forall>c \<in> set [(0, 2, 1, 3), (0, 3, 1, 2), (1, 2, 0, 3), (1, 3, 0, 2)].
          length (filter (same_split c)
            [(0, 2, 1, 3), (0, 3, 1, 2), (1, 2, 0, 3), (1, 3, 0, 2)]) = 2)"
    by (simp only: snapshot_def builder.simps nth_Cons_0) blast
  then have "distinct [(0, 2, 1, 3), (0, 3, 1, 2), (1, 2, 0, 3), (1, 3, 0, 2) :: candidate]
     \<and> length (filter (same_split (0, 3, 1, 2))
            [(0, 2, 1, 3), (0, 3, 1, 2), (1, 2, 0, 3), (1, 3, 0, 2)]) = 2"
    by (meson list.set_intros)
  with run show ?thesis by blast
qed

text \<open>The claim C5 as it is written fails in its second half: on an event with charges
  \<open>+1, +1, -1, -1\<close> the tuples at positions 0 and 3 are different tuples and split the
  same four indices the same way, into \<open>{0, 2}\<close> and \<open>{1, 3}\<close>.\<close>

theorem find_4lep_same_split_twice:
  "fourmuon_idx [ev_ppmm] = Inr [[(0, 2, 1, 3), (0, 3, 1, 2), (1, 2, 0, 3), (1, 3, 0, 2)]]
   \<and> (0, 2, 1, 3) \<noteq> (1, 3, 0, (2::nat))
   \<and> same_split (0, 2, 1, 3) (1, 3, 0, 2)"
proof -
  have "fourmuon_idx [ev_ppmm] = Inr [[(0, 2, 1, 3), (0, 3, 1, 2), (1, 2, 0, 3), (1, 3, 0, 2)]]"
    by code_simp
  moreover have "same_split (0, 2, 1, 3) (1, 3, 0, 2)"
    using same_split_swap [of "(0, 2, 1, 3)"] by simp
  ultimately show ?thesis by simp
qed

section \<open>Single precision\<close>

text \<open>
  The search of \<open>ulp_exp32\<close> finds the exponent it is meant to find: it lies between
  \<open>-149\<close> and \<open>104\<close>, \<open>\<bar>x\<bar>\<close> is below \<open>2 ^ (e + 24)\<close> unless the search stopped at \<open>104\<close>,
  and \<open>\<bar>x\<bar>\<close> is at least \<open>2 ^ (e + 23)\<close> unless it stopped at \<open>-149\<close>. The rounded value
  is within half a spacing of the exact one.
\<close>

lemma two_powi_Suc: "(2::real) powi (k + 1) = 2 * 2 powi k"
  by (simp add: power_int_add)

lemma two_powi_pred: "(2::real) powi (k - 1) = 2 powi k / 2"
  using two_powi_Suc [of "k - 1"] by simp

lemma ulp_up_spec:
  assumes "t = 2 powi (e + 24)" "t / 2 \<le> \<bar>x\<bar>"
  shows "e \<le> ulp_up n e t x \<and> ulp_up n e t x \<le> e + int n
       \<and> 2 powi (ulp_up n e t x + 23) \<le> \<bar>x\<bar>
       \<and> (ulp_up n e t x < e + int n \<longrightarrow> \<bar>x\<bar> < 2 powi (ulp_up n e t x + 24))"
  using assms
proof (induction n arbitrary: e t)
  case 0
  have "(2::real) powi (e + 23) = 2 powi (e + 24) / 2"
    using two_powi_pred [of "e + 24"] by (simp add: algebra_simps)
  with 0 show ?case by simp
next
  case (Suc n)
  have half: "(2::real) powi (e + 23) = 2 powi (e + 24) / 2"
    using two_powi_pred [of "e + 24"] by (simp add: algebra_simps)
  show ?case
  proof (cases "\<bar>x\<bar> < t")
    case True
    with Suc.prems half show ?thesis by simp
  next
    case False
    have t2: "2 * t = 2 powi (e + 1 + 24)"
      using two_powi_Suc [of "e + 24"] Suc.prems(1) by (simp add: algebra_simps)
    have le: "2 * t / 2 \<le> \<bar>x\<bar>" using False by simp
    from Suc.IH [OF t2 le] False show ?thesis by simp
  qed
qed

lemma ulp_down_spec:
  assumes "t = 2 powi (e + 24)" "\<bar>x\<bar> < t"
  shows "e - int n \<le> ulp_down n e t x \<and> ulp_down n e t x \<le> e
       \<and> \<bar>x\<bar> < 2 powi (ulp_down n e t x + 24)
       \<and> (e - int n < ulp_down n e t x \<longrightarrow> 2 powi (ulp_down n e t x + 23) \<le> \<bar>x\<bar>)"
  using assms
proof (induction n arbitrary: e t)
  case 0
  then show ?case by simp
next
  case (Suc n)
  have half: "(2::real) powi (e + 23) = 2 powi (e + 24) / 2"
    using two_powi_pred [of "e + 24"] by (simp add: algebra_simps)
  show ?case
  proof (cases "t / 2 \<le> \<bar>x\<bar>")
    case True
    with Suc.prems half show ?thesis by simp
  next
    case False
    have t2: "t / 2 = 2 powi (e - 1 + 24)"
      using half Suc.prems(1) by (simp add: algebra_simps)
    have lt: "\<bar>x\<bar> < t / 2" using False by simp
    from Suc.IH [OF t2 lt] False show ?thesis by simp
  qed
qed

lemma ulp_exp32_spec:
  "- 149 \<le> ulp_exp32 x \<and> ulp_exp32 x \<le> 104
   \<and> (ulp_exp32 x < 104 \<longrightarrow> \<bar>x\<bar> < 2 powi (ulp_exp32 x + 24))
   \<and> (- 149 < ulp_exp32 x \<longrightarrow> 2 powi (ulp_exp32 x + 23) \<le> \<bar>x\<bar>)"
proof (cases "1 \<le> \<bar>x\<bar>")
  case True
  have "(2::real) = 2 powi (- 23 + 24)" by simp
  moreover have "(2::real) / 2 \<le> \<bar>x\<bar>" using True by simp
  ultimately show ?thesis
    using ulp_up_spec [of 2 "- 23" x 127] True by (simp add: ulp_exp32_def)
next
  case False
  have "(2::real) = 2 powi (- 23 + 24)" by simp
  moreover have "\<bar>x\<bar> < 2" using False by simp
  ultimately show ?thesis
    using ulp_down_spec [of 2 "- 23" x 126] False by (simp add: ulp_exp32_def)
qed

lemma round_even_near: "\<bar>of_int (round_even q) - q\<bar> \<le> 1 / 2"
proof -
  have "of_int \<lfloor>q\<rfloor> \<le> q" "q < of_int \<lfloor>q\<rfloor> + 1" by linarith+
  then show ?thesis by (auto simp: round_even_def Let_def)
qed

lemma fl32_error: "\<bar>fl32 x - x\<bar> \<le> 2 powi ulp_exp32 x / 2"
proof -
  let ?u = "(2::real) powi ulp_exp32 x"
  have u: "0 < ?u" by simp
  have "fl32 x - x = (of_int (round_even (x / ?u)) - x / ?u) * ?u"
    using u by (simp add: fl32_def Let_def algebra_simps)
  then have "\<bar>fl32 x - x\<bar> = \<bar>of_int (round_even (x / ?u)) - x / ?u\<bar> * ?u"
    using u by (simp add: abs_mult)
  also have "\<dots> \<le> 1 / 2 * ?u"
    using round_even_near [of "x / ?u"] u by (intro mult_right_mono) simp_all
  finally show ?thesis by simp
qed

text \<open>The float32 nearest to 91.1876 is \<open>11952141 / 2 ^ 17\<close>, that is 91.18759918212890625;
  rounding goes to the nearest float32 and to the even significand on a tie.\<close>

lemma nominal32_value: "nominal32 = 11952141 / 131072"
  by code_simp

lemma fl32_examples:
  "fl32 (1 / 10) = 13421773 / 134217728"
  "fl32 16777217 = 16777216"
  "fl32 16777219 = 16777220"
  "fl32 (11952114 / 131072 - nominal32) = - (27 / 131072)"
  by code_simp+

section \<open>The selection in closed form\<close>

lemma mapM_closed:
  assumes "\<And>x. x \<in> set xs \<Longrightarrow> f x = Inr (g x)"
  shows "mapM f xs = Inr (map g xs)"
  using assms by (induction xs) simp_all

lemma argmin_None: "argmin xs = None \<longleftrightarrow> xs = []"
  by (induction xs) (auto split: option.splits)

lemma argmin_Some:
  assumes "argmin xs = Some k"
  shows "k < length xs \<and> (\<forall>j < length xs. xs ! k \<le> xs ! j)"
  using assms
proof (induction xs arbitrary: k)
  case Nil
  then show ?case by simp
next
  case (Cons x xs)
  show ?case
  proof (cases "argmin xs")
    case None
    then have "xs = []" by (simp only: argmin_None)
    with Cons.prems show ?thesis by simp
  next
    case (Some m)
    then have m: "m < length xs" "\<forall>j < length xs. xs ! m \<le> xs ! j"
      using Cons.IH by simp_all
    show ?thesis
    proof (cases "xs ! m < x")
      case True
      with Some Cons.prems have k: "k = Suc m" by simp
      have "(x # xs) ! k \<le> (x # xs) ! j" if "j < length (x # xs)" for j
        using that m True k by (cases j) (auto intro: less_imp_le)
      with k m(1) show ?thesis by simp
    next
      case False
      with Some Cons.prems have k: "k = 0" by simp
      have "(x # xs) ! k \<le> (x # xs) ! j" if "j < length (x # xs)" for j
      proof (cases j)
        case 0
        with k show ?thesis by simp
      next
        case (Suc i)
        with that have "i < length xs" by simp
        with m(2) have "xs ! m \<le> xs ! i" by simp
        with False k Suc show ?thesis by simp
      qed
      with k show ?thesis by simp
    qed
  qed
qed


lemma best_of_Nil: "best_of pmass [] = []"
  by (simp add: best_of_def)


lemma select_best_closed: "select_best pmass fss = Inr (concat (map (best_of pmass) fss))"
proof -
  have z: "zip fss (bestz1 pmass fss)
           = map (\<lambda>fs. (fs, singletons (argmin (map (z1_dist pmass) fs)))) fss"
    unfolding bestz1_def by (induction fss) simp_all
  have "mapM (\<lambda>(fs, ks). mapM (getitem fs) ks) (zip fss (bestz1 pmass fss))
        = Inr (map (\<lambda>(fs, ks). map ((!) fs) ks) (zip fss (bestz1 pmass fss)))"
  proof (rule mapM_closed)
    fix p
    assume "p \<in> set (zip fss (bestz1 pmass fss))"
    then obtain fs where p: "p = (fs, singletons (argmin (map (z1_dist pmass) fs)))"
      unfolding z by auto
    have "mapM (getitem fs) (singletons (argmin (map (z1_dist pmass) fs)))
          = Inr (map ((!) fs) (singletons (argmin (map (z1_dist pmass) fs))))"
    proof (rule mapM_closed)
      fix k
      assume "k \<in> set (singletons (argmin (map (z1_dist pmass) fs)))"
      then have "argmin (map (z1_dist pmass) fs) = Some k"
        by (auto simp: singletons_def split: option.splits)
      from argmin_Some [OF this] have "k < length fs" by simp
      then show "getitem fs k = Inr (fs ! k)" by (simp add: getitem_def)
    qed
    then show "(case p of (fs, ks) \<Rightarrow> mapM (getitem fs) ks)
             = Inr (case p of (fs, ks) \<Rightarrow> map ((!) fs) ks)"
      by (simp add: p)
  qed
  moreover have "map (\<lambda>(fs, ks). map ((!) fs) ks) (zip fss (bestz1 pmass fss))
                 = map (best_of pmass) fss"
    unfolding z by (simp add: best_of_def singletons_def split: option.splits)
  ultimately show ?thesis by (simp add: select_best_def)
qed


lemma zip_fourmuon_closed:
  assumes "c \<in> set (event_cands ev)"
  shows "zip_fourmuon ev c = Inr (mk_fourmu ev c)"
proof -
  obtain i0 i1 i2 i3 where c: "c = (i0, i1, i2, i3)" by (cases c)
  with assms have "(i0, i1, i2, i3) \<in> set (all_cands (map charge ev) (length ev))"
    by (simp add: event_cands_def)
  then have "i0 < i1" "i1 < length ev" "i2 < i3" "i3 < length ev"
    by (simp_all only: all_cands_iff)
  then show ?thesis by (simp add: c zip_fourmuon_def getitem_def)
qed

lemma fourmuon_records_closed:
  assumes "concat (map event_cands muons) \<noteq> []"
  shows "fourmuon_records muons (map event_cands muons)
         = Inr (map (\<lambda>ev. map (mk_fourmu ev) (event_cands ev)) muons)"
proof -
  have z: "zip muons (map event_cands muons) = map (\<lambda>ev. (ev, event_cands ev)) muons"
    by (induction muons) simp_all
  have "mapM (\<lambda>(ev, cs). mapM (zip_fourmuon ev) cs) (zip muons (map event_cands muons))
        = Inr (map (\<lambda>(ev, cs). map (mk_fourmu ev) cs) (zip muons (map event_cands muons)))"
  proof (rule mapM_closed)
    fix p
    assume "p \<in> set (zip muons (map event_cands muons))"
    then obtain ev where p: "p = (ev, event_cands ev)" unfolding z by auto
    have "mapM (zip_fourmuon ev) (event_cands ev) = Inr (map (mk_fourmu ev) (event_cands ev))"
      by (rule mapM_closed) (rule zip_fourmuon_closed)
    then show "(case p of (ev, cs) \<Rightarrow> mapM (zip_fourmuon ev) cs)
             = Inr (case p of (ev, cs) \<Rightarrow> map (mk_fourmu ev) cs)"
      by (simp add: p)
  qed
  moreover have "map (\<lambda>(ev, cs). map (mk_fourmu ev) cs) (zip muons (map event_cands muons))
                 = map (\<lambda>ev. map (mk_fourmu ev) (event_cands ev)) muons"
    unfolding z by simp
  ultimately have "mapM (\<lambda>(ev, cs). mapM (zip_fourmuon ev) cs)
                     (zip muons (map event_cands muons))
                   = Inr (map (\<lambda>ev. map (mk_fourmu ev) (event_cands ev)) muons)"
    by (simp only:)
  with assms show ?thesis by (simp add: fourmuon_records_def)
qed

lemma best_fourmuon_closed:
  "best_fourmuon pmass muons =
     (if concat (map event_cands muons) = [] then Inl IndexError
      else Inr (concat (map (event_best pmass) muons)))"
proof (cases "concat (map event_cands muons) = []")
  case True
  then show ?thesis
    by (simp add: best_fourmuon_def fourmuon_idx_closed fourmuon_records_def)
next
  case False
  then have "best_fourmuon pmass muons
             = select_best pmass (map (\<lambda>ev. map (mk_fourmu ev) (event_cands ev)) muons)"
    by (simp add: best_fourmuon_def fourmuon_idx_closed fourmuon_records_closed)
  also have "\<dots> = Inr (concat (map (best_of pmass)
                 (map (\<lambda>ev. map (mk_fourmu ev) (event_cands ev)) muons)))"
    by (rule select_best_closed)
  also have "map (best_of pmass) (map (\<lambda>ev. map (mk_fourmu ev) (event_cands ev)) muons)
             = map (event_best pmass) muons"
    by (simp add: event_best_def)
  finally show ?thesis using False by simp
qed






lemma event_best_Nil:
  assumes "event_cands ev = []"
  shows "event_best pmass ev = []"
  using assms by (simp add: event_best_def best_of_Nil)

lemma length4_conv:
  assumes "length xs = 4"
  shows "\<exists>a b c d. xs = [a, b, c, d]"
  using assms by (auto simp: length_Suc_conv eval_nat_numeral)


lemma muon_counts_charges:
  assumes "muon_counts ev"
  shows "map charge ev \<in> {[1, 1, - 1, - 1], [1, - 1, 1, - 1], [1, - 1, - 1, 1],
                          [- 1, 1, 1, - 1], [- 1, 1, - 1, 1], [- 1, - 1, 1, 1]}"
proof -
  from assms have "length ev = 4" by (simp add: muon_counts_def)
  then obtain a b c d where ev: "ev = [a, b, c, d]"
    using length4_conv by blast
  from assms show ?thesis
    unfolding muon_counts_def ev by (simp split: if_splits)
qed

lemma two_two_cands:
  "length (all_cands [1, 1, - 1, - 1] 4) = 4"
  "length (all_cands [1, - 1, 1, - 1] 4) = 4"
  "length (all_cands [1, - 1, - 1, 1] 4) = 4"
  "length (all_cands [- 1, 1, 1, - 1] 4) = 4"
  "length (all_cands [- 1, 1, - 1, 1] 4) = 4"
  "length (all_cands [- 1, - 1, 1, 1] 4) = 4"
  by code_simp+

lemma muon_counts_cands:
  assumes "muon_counts ev"
  shows "length (event_cands ev) = 4"
proof -
  from assms have len: "length ev = 4" by (simp add: muon_counts_def)
  from muon_counts_charges [OF assms] have "length (all_cands (map charge ev) 4) = 4"
    by (elim insertE emptyE) (simp_all only: two_two_cands)
  then show ?thesis by (simp only: event_cands_def len)
qed



lemma masked_cands:
  assumes "filter muon_counts muons \<noteq> []"
  shows "concat (map event_cands (filter muon_counts muons)) \<noteq> []"
proof -
  from assms obtain ev where ev: "ev \<in> set (filter muon_counts muons)"
    by (cases "filter muon_counts muons") auto
  then have "muon_counts ev" by simp
  then have "length (event_cands ev) = 4" by (rule muon_counts_cands)
  then have "event_cands ev \<noteq> []" by auto
  with ev show ?thesis by auto
qed

lemma RunSamples_batch_closed:
  "RunSamples_batch pmass muons
   = Inr (concat (map (event_best pmass) (filter muon_counts muons)))"
proof (cases "filter muon_counts muons = []")
  case True
  then show ?thesis by (simp add: RunSamples_batch_def)
next
  case False
  with masked_cands [OF False] show ?thesis
    by (simp add: RunSamples_batch_def Let_def best_fourmuon_closed)
qed

lemma no_cands_not_masked:
  assumes "event_cands ev = []"
  shows "\<not> muon_counts ev"
proof
  assume "muon_counts ev"
  then have "length (event_cands ev) = 4" by (rule muon_counts_cands)
  with assms show False by simp
qed


section \<open>The selection of \<^verbatim>\<open>RunSamples\<close>\<close>




lemma filter_drop_nth:
  assumes "k < length xs" "\<not> P (xs ! k)"
  shows "filter P (take k xs @ drop (Suc k) xs) = filter P xs"
proof -
  have "xs = take k xs @ xs ! k # drop (Suc k) xs"
    using assms(1) by (rule id_take_nth_drop)
  then have "filter P xs = filter P (take k xs @ xs ! k # drop (Suc k) xs)" by simp
  also have "\<dots> = filter P (take k xs @ drop (Suc k) xs)" using assms(2) by simp
  finally show ?thesis by simp
qed

lemma concat_map_drop_nth:
  assumes "k < length xs" "f (xs ! k) = []"
  shows "concat (map f (take k xs @ drop (Suc k) xs)) = concat (map f xs)"
proof -
  have "xs = take k xs @ xs ! k # drop (Suc k) xs"
    using assms(1) by (rule id_take_nth_drop)
  then have "concat (map f xs) = concat (map f (take k xs @ xs ! k # drop (Suc k) xs))"
    by simp
  also have "\<dots> = concat (map f (take k xs @ drop (Suc k) xs))" using assms(2) by simp
  finally show ?thesis by simp
qed

text \<open>
  C7 as the code has it. An event whose list of candidates is empty never reaches the
  selection in \<^verbatim>\<open>RunSamples\<close>: the mask of line 449 rejects it, \<^verbatim>\<open>RunSamples\<close> returns no
  record for it and no error, and the records of its batch are the same as without
  it. Lines 455 to 471 themselves, on a batch in which some other event has a
  candidate, return no error, give the empty list of positions for the event on line
  470, and return the same records as without the event.
\<close>

theorem no_candidate_no_assignment:
  assumes "fourmuon_idx muons = Inr idx"
    and "k < length muons"
    and "idx ! k = []"
  shows "\<not> muon_counts (muons ! k)
       \<and> RunSamples_batch pmass [muons ! k] = Inr []
       \<and> RunSamples_batch pmass muons
           = RunSamples_batch pmass (take k muons @ drop (Suc k) muons)
       \<and> (\<exists>fs. RunSamples_batch pmass muons = Inr fs)
       \<and> (concat idx \<noteq> [] \<longrightarrow>
            (\<exists>fs. best_fourmuon pmass muons = Inr fs
                \<and> best_fourmuon pmass (take k muons @ drop (Suc k) muons) = Inr fs)
          \<and> (\<exists>fourmuon. fourmuon_records muons idx = Inr fourmuon
                \<and> bestz1 pmass fourmuon ! k = []))"
proof -
  let ?ev = "muons ! k"
  let ?rest = "take k muons @ drop (Suc k) muons"
  have idx: "idx = map event_cands muons"
    using assms(1) by (simp add: fourmuon_idx_closed)
  with assms(2,3) have none: "event_cands ?ev = []" by simp
  then have nm: "\<not> muon_counts ?ev" by (rule no_cands_not_masked)
  then have 1: "RunSamples_batch pmass [?ev] = Inr []"
    by (simp add: RunSamples_batch_closed)
  have "filter muon_counts ?rest = filter muon_counts muons"
    using assms(2) nm by (rule filter_drop_nth)
  then have 2: "RunSamples_batch pmass muons = RunSamples_batch pmass ?rest"
    by (simp add: RunSamples_batch_closed)
  have 3: "\<exists>fs. RunSamples_batch pmass muons = Inr fs"
    by (simp add: RunSamples_batch_closed)
  have 4: "(\<exists>fs. best_fourmuon pmass muons = Inr fs \<and> best_fourmuon pmass ?rest = Inr fs)
         \<and> (\<exists>fourmuon. fourmuon_records muons idx = Inr fourmuon
               \<and> bestz1 pmass fourmuon ! k = [])"
    if some: "concat idx \<noteq> []"
  proof
    have e: "event_best pmass ?ev = []" using none by (rule event_best_Nil)
    have c: "concat (map event_cands ?rest) = concat (map event_cands muons)"
      using assms(2) none by (rule concat_map_drop_nth)
    have b: "concat (map (event_best pmass) ?rest) = concat (map (event_best pmass) muons)"
      using assms(2) e by (rule concat_map_drop_nth)
    from some idx have s: "concat (map event_cands muons) \<noteq> []" by simp
    then have "best_fourmuon pmass muons = Inr (concat (map (event_best pmass) muons))"
      by (simp add: best_fourmuon_closed)
    moreover from s c b
    have "best_fourmuon pmass ?rest = Inr (concat (map (event_best pmass) muons))"
      by (simp add: best_fourmuon_closed)
    ultimately show "\<exists>fs. best_fourmuon pmass muons = Inr fs
        \<and> best_fourmuon pmass ?rest = Inr fs"
      by blast
    let ?fourmuon = "map (\<lambda>ev. map (mk_fourmu ev) (event_cands ev)) muons"
    have r: "fourmuon_records muons idx = Inr ?fourmuon"
      unfolding idx using s by (rule fourmuon_records_closed)
    have "?fourmuon ! k = []" using assms(2) none by simp
    then have "bestz1 pmass ?fourmuon ! k = []"
      using assms(2) by (simp add: bestz1_def singletons_def)
    with r show "\<exists>fourmuon. fourmuon_records muons idx = Inr fourmuon
        \<and> bestz1 pmass fourmuon ! k = []"
      by blast
  qed
  from nm 1 2 3 4 show ?thesis by blast
qed

theorem no_candidate_no_assignment_witness:
  "fourmuon_idx [ev_pmpm, ev_pppp, ev_ppmm]
     = Inr [[(0, 1, 2, 3), (0, 3, 1, 2), (1, 2, 0, 3), (2, 3, 0, 1)], [],
            [(0, 2, 1, 3), (0, 3, 1, 2), (1, 2, 0, 3), (1, 3, 0, 2)]]
   \<and> \<not> muon_counts ev_pppp
   \<and> RunSamples_batch pt_sum [ev_pppp] = Inr []
   \<and> RunSamples_batch pt_sum [ev_pmpm, ev_pppp, ev_ppmm]
       = RunSamples_batch pt_sum [ev_pmpm, ev_ppmm]
   \<and> (\<exists>fs. best_fourmuon pt_sum [ev_pmpm, ev_pppp, ev_ppmm] = Inr fs
          \<and> best_fourmuon pt_sum [ev_pmpm, ev_ppmm] = Inr fs)"
proof -
  let ?idx = "[[(0, 1, 2, 3), (0, 3, 1, 2), (1, 2, 0, 3), (2, 3, 0, 1)], [],
            [(0, 2, 1, 3), (0, 3, 1, 2), (1, 2, 0, 3), (1, 3, 0, 2)]] :: candidate list list"
  have run: "fourmuon_idx [ev_pmpm, ev_pppp, ev_ppmm] = Inr ?idx"
    by code_simp
  have k: "1 < length [ev_pmpm, ev_pppp, ev_ppmm]" by simp
  have e: "?idx ! 1 = []" by simp
  have some: "concat ?idx \<noteq> []" by simp
  from no_candidate_no_assignment [OF run k e, of pt_sum] some run show ?thesis by simp
qed

text \<open>The claim C7 as it is written fails on lines 455 to 471: for an event with no
  candidate in a batch where no event has one, they return no absence value, line
  456 raises.\<close>

theorem no_candidate_raises:
  "fourmuon_idx [ev_pppp] = Inr [[]]
   \<and> best_fourmuon pt_sum [ev_pppp] = Inl IndexError"
  by code_simp



end
